theory Spec2Isabelle
  imports Main "HOL-Library.Word" "HOL-Library.Multiset"
begin

section \<open>JavaScript strings\<close>

text \<open>
  A JavaScript string is a sequence of UTF-16 code units. \<open>startsWith\<close>,
  \<open>substring\<close>, \<open>split\<close> and \<open>trim\<close> all work on code units, so a string is
  modelled as a list of 16-bit words. ASCII literals of the source are written
  \<open>js ''...''\<close>; the Arabic literals are written out as their code units.
\<close>

type_synonym uchar = "16 word"
type_synonym jsstring = "uchar list"

definition js :: "string \<Rightarrow> jsstring" where
  "js s = map of_char s"

text \<open>The separator of \<^verbatim>\<open>text.split('\n')\<close>: LINE FEED.\<close>

definition NL :: uchar where
  "NL = 0x0A"

text \<open>
  \<^verbatim>\<open>s.startsWith(searchString)\<close> (position 0): the code units of \<open>searchString\<close>
  are the first code units of \<open>s\<close>.
\<close>

definition startsWith :: "jsstring \<Rightarrow> jsstring \<Rightarrow> bool" where
  "startsWith s searchString = (take (length searchString) s = searchString)"

text \<open>
  \<^verbatim>\<open>s.substring(start)\<close>: the code units from index \<open>start\<close> on; a start past
  the end gives the empty string.
\<close>

definition substring :: "nat \<Rightarrow> jsstring \<Rightarrow> jsstring" where
  "substring start s = drop start s"

text \<open>
  \<^verbatim>\<open>s.trim()\<close> removes, from both ends, the code points ECMAScript calls
  WhiteSpace or LineTerminator: TAB, LF, VT, FF, CR, SPACE, NBSP, U+1680,
  U+2000 to U+200A, U+2028, U+2029, U+202F, U+205F, U+3000 and U+FEFF. All of them are
  single code units.
\<close>

definition isWhiteSpace :: "uchar \<Rightarrow> bool" where
  "isWhiteSpace c = (c \<in> set [0x9, 0xA, 0xB, 0xC, 0xD, 0x20, 0xA0, 0x1680,
      0x2000, 0x2001, 0x2002, 0x2003, 0x2004, 0x2005, 0x2006, 0x2007, 0x2008, 0x2009, 0x200A,
      0x2028, 0x2029, 0x202F, 0x205F, 0x3000, 0xFEFF])"

definition trim :: "jsstring \<Rightarrow> jsstring" where
  "trim s = rev (dropWhile isWhiteSpace (rev (dropWhile isWhiteSpace s)))"

text \<open>
  \<^verbatim>\<open>s.split(sep)\<close> for a separator of one code unit: cut at the next separator,
  keep what stands before it, go on behind it. A string with no separator (the empty
  string too) is one segment.
\<close>

function split_str :: "uchar \<Rightarrow> jsstring \<Rightarrow> jsstring list" where
  "split_str sep s =
     (case dropWhile (\<lambda>c. c \<noteq> sep) s of
        [] \<Rightarrow> [s]
      | _ # rest \<Rightarrow> takeWhile (\<lambda>c. c \<noteq> sep) s # split_str sep rest)"
  by pat_completeness auto
termination
proof (relation "measure (\<lambda>(sep, s). length s)")
  show "wf (measure (\<lambda>(sep :: uchar, s :: jsstring). length s))"
    by simp
next
  fix sep :: uchar and s :: jsstring and x rest
  assume "dropWhile (\<lambda>c. c \<noteq> sep) s = x # rest"
  then have "Suc (length rest) = length (dropWhile (\<lambda>c. c \<noteq> sep) s)"
    by simp
  also have "\<dots> \<le> length s"
    by (rule length_dropWhile_le)
  finally show "((sep, rest), (sep, s)) \<in> measure (\<lambda>(sep, s). length s)"
    by simp
qed

declare split_str.simps [simp del]

text \<open>\<^verbatim>\<open>segments.join(sep)\<close>, the inverse of \<open>split_str\<close>.\<close>

fun join_str :: "uchar \<Rightarrow> jsstring list \<Rightarrow> jsstring" where
  "join_str sep [] = []"
| "join_str sep [s] = s"
| "join_str sep (s # t # ss) = s @ sep # join_str sep (t # ss)"

section \<open>The legend and the renderer (App.tsx)\<close>

record legend_item =
  char :: jsstring
  description :: jsstring
  color :: jsstring

definition LEGEND_ITEMS :: "legend_item list" where
  "LEGEND_ITEMS =
    [ \<lparr> char = js ''#'',
        description = [0x646, 0x635, 0x20, 0x62f, 0x627, 0x62e, 0x644, 0x20, 0x641, 0x642,
          0x627, 0x639, 0x629, 0x20, 0x643, 0x644, 0x627, 0x645, 0x20, 0x639, 0x627, 0x62f,
          0x64a, 0x629],
        color = js ''text-cyan-400'' \<rparr>,
      \<lparr> char = js ''$'',
        description = [0x646, 0x635, 0x20, 0x62f, 0x627, 0x62e, 0x644, 0x20, 0x641, 0x642,
          0x627, 0x639, 0x629, 0x20, 0x62a, 0x641, 0x643, 0x64a, 0x631, 0x20, 0x623, 0x648,
          0x20, 0x647, 0x645, 0x633],
        color = js ''text-purple-400'' \<rparr>,
      \<lparr> char = js ''&'',
        description = [0x646, 0x635, 0x20, 0x62f, 0x627, 0x62e, 0x644, 0x20, 0x645, 0x631,
          0x628, 0x639, 0x20, 0x627, 0x644, 0x633, 0x631, 0x62f],
        color = js ''text-amber-400'' \<rparr>,
      \<lparr> char = js ''('',
        description = [0x645, 0x624, 0x62b, 0x631, 0x627, 0x62a, 0x20, 0x635, 0x648, 0x62a,
          0x64a, 0x629, 0x20, 0x28, 0x53, 0x46, 0x58, 0x29],
        color = js ''text-orange-400'' \<rparr>,
      \<lparr> char = js '')'',
        description = [0x646, 0x635, 0x20, 0x62f, 0x627, 0x62e, 0x644, 0x20, 0x641, 0x642,
          0x627, 0x639, 0x629, 0x20, 0x635, 0x631, 0x627, 0x62e],
        color = js ''text-red-400'' \<rparr>,
      \<lparr> char = js ''/'',
        description = [0x646, 0x635, 0x20, 0x62f, 0x627, 0x62e, 0x644, 0x20, 0x641, 0x642,
          0x627, 0x639, 0x629, 0x20, 0x646, 0x638, 0x627, 0x645, 0x20, 0x623, 0x648, 0x20,
          0x634, 0x627, 0x634, 0x629, 0x20, 0x645, 0x639, 0x644, 0x648, 0x645, 0x627, 0x62a],
        color = js ''text-green-400'' \<rparr>,
      \<lparr> char = js ''_'',
        description = [0x646, 0x635, 0x20, 0x622, 0x62e, 0x631, 0x20, 0x63a, 0x64a, 0x631,
          0x20, 0x645, 0x635, 0x646, 0x641],
        color = js ''text-gray-400'' \<rparr> ]"

text \<open>
  What \<open>renderText\<close> returns for one line: a row with the marker's colour, the
  marker's character and the stripped text, or the line as it is. The first argument is
  the React key, the line's index.
\<close>

datatype line_div =
    MarkedDiv nat jsstring jsstring jsstring
  | PlainDiv nat jsstring

text \<open>
  \<^verbatim>\<open>legend.find(item => line.startsWith(item.char))\<close>: the first entry, in the
  list's order, whose \<open>char\<close> the line starts with.
\<close>

definition find_marker :: "legend_item list \<Rightarrow> jsstring \<Rightarrow> legend_item option" where
  "find_marker legend line = find (\<lambda>item. startsWith line (char item)) legend"

text \<open>The callback of \<^verbatim>\<open>.map((line, index) => ...)\<close> in \<open>renderText\<close>.\<close>

definition render_line :: "jsstring \<Rightarrow> nat \<Rightarrow> line_div" where
  "render_line line index =
     (case find_marker LEGEND_ITEMS line of
        Some marker \<Rightarrow> MarkedDiv index (color marker) (char marker) (trim (substring 1 line))
      | None \<Rightarrow> PlainDiv index line)"

definition renderText :: "jsstring \<Rightarrow> line_div list" where
  "renderText text = map (\<lambda>(index, line). render_line line index) (enumerate 0 (split_str NL text))"

subsection \<open>ResultDisplay\<close>

text \<open>
  JavaScript truthiness of a \<^verbatim>\<open>string | null\<close>: \<open>null\<close> and the empty string
  are falsy.
\<close>

definition truthy :: "jsstring option \<Rightarrow> bool" where
  "truthy v = (case v of None \<Rightarrow> False | Some s \<Rightarrow> s \<noteq> [])"

text \<open>
  What \<open>ResultDisplay\<close> shows for its props: the loading overlay, the error box, and,
  only when it is neither loading nor in error, either the transcript rendered by
  \<open>renderText\<close> (for a non-empty \<open>extractedText\<close>) or the placeholder paragraph. The
  copy button beside the transcript and the legend above are left out.
\<close>

datatype result_body = Transcript "line_div list" | Placeholder

record result_view =
  overlay :: bool
  error_box :: "jsstring option"
  body :: "result_body option"

definition ResultDisplay :: "jsstring \<Rightarrow> bool \<Rightarrow> jsstring option \<Rightarrow> result_view" where
  "ResultDisplay extractedText isLoading error =
     \<lparr> overlay = isLoading,
       error_box = (if truthy error then error else None),
       body = (if \<not> isLoading \<and> \<not> truthy error
               then Some (if extractedText \<noteq> [] then Transcript (renderText extractedText)
                          else Placeholder)
               else None) \<rparr>"

section \<open>The App component: state, handlers and the event loop\<close>

text \<open>
  A browser \<open>File\<close>: its name, its declared media type (\<^verbatim>\<open>file.type\<close>) and its
  bytes.
\<close>

record js_file =
  file_name :: jsstring
  file_type :: jsstring
  file_bytes :: "8 word list"

text \<open>The five \<open>useState\<close> slots of \<open>App\<close>.\<close>

record app_state =
  imageFile :: "js_file option"
  imageUrl :: "jsstring option"
  extractedText :: jsstring
  isLoading :: bool
  error :: "jsstring option"

text \<open>
  The two collaborators \<open>fileToBase64\<close> and \<open>extractTextFromImage\<close> are asynchronous
  and may fail; the model records each invocation and lets the environment settle the
  promise later, with a value or with a thrown error (whose detail is opaque).
\<close>

datatype exn = Exn jsstring

datatype 'a settled = Fulfilled 'a | Rejected exn

datatype call = FileToBase64 js_file | ExtractTextFromImage jsstring jsstring

text \<open>
  A run of \<open>handleExtractText\<close> suspended at one of its two \<open>await\<close>s; it carries the
  \<open>imageFile\<close> its closure captured (\<open>img\<close> below).
\<close>

datatype pending = AwaitEncode js_file | AwaitExtract js_file

text \<open>
  How a piece of the handler ends: suspended at an \<open>await\<close>, returned, or left by an
  exception no \<open>catch\<close> took.
\<close>

datatype completion = Suspended pending | Returned | Threw exn

record world =
  ui :: app_state
  inflight :: "pending list"
  calls :: "call list"
  console :: "exn list"
  unhandled :: "exn list"

definition init_world :: world where
  "init_world =
     \<lparr> ui = \<lparr> imageFile = None, imageUrl = None, extractedText = [], isLoading = False,
              error = None \<rparr>,
       inflight = [], calls = [], console = [], unhandled = [] \<rparr>"

text \<open>The two messages of \<open>setError\<close>, as UTF-16 code units.\<close>

definition NO_IMAGE_MSG :: jsstring where
  "NO_IMAGE_MSG = [0x627, 0x644, 0x631, 0x62c, 0x627, 0x621, 0x20, 0x627, 0x62e, 0x62a, 0x64a,
     0x627, 0x631, 0x20, 0x635, 0x648, 0x631, 0x629, 0x20, 0x623, 0x648, 0x644, 0x627, 0x64b,
     0x2e]"

definition EXTRACT_FAILED_MSG :: jsstring where
  "EXTRACT_FAILED_MSG = [0x62d, 0x62f, 0x62b, 0x20, 0x62e, 0x637, 0x623, 0x20, 0x623, 0x62b,
     0x646, 0x627, 0x621, 0x20, 0x627, 0x633, 0x62a, 0x62e, 0x631, 0x627, 0x62c, 0x20, 0x627,
     0x644, 0x646, 0x635, 0x2e, 0x20, 0x627, 0x644, 0x631, 0x62c, 0x627, 0x621, 0x20, 0x627,
     0x644, 0x645, 0x62d, 0x627, 0x648, 0x644, 0x629, 0x20, 0x645, 0x631, 0x629, 0x20, 0x623,
     0x62e, 0x631, 0x649, 0x2e]"

text \<open>
  \<open>handleImageSelect(file)\<close>; \<open>url\<close> is what \<^verbatim>\<open>URL.createObjectURL(file)\<close>
  returned.
\<close>

definition handleImageSelect :: "js_file \<Rightarrow> jsstring \<Rightarrow> world \<Rightarrow> world" where
  "handleImageSelect f url w =
     w\<lparr>ui := (ui w)\<lparr>imageFile := Some f, imageUrl := Some url, extractedText := [],
                     error := None\<rparr>\<rparr>"

text \<open>
  \<open>handleExtractText\<close> up to its first \<open>await\<close>: the guard, the three setters, and
  the call of \<open>fileToBase64\<close>.
\<close>

definition handleExtractText :: "world \<Rightarrow> completion \<times> world" where
  "handleExtractText w =
     (case imageFile (ui w) of
        None \<Rightarrow> (Returned, w\<lparr>ui := (ui w)\<lparr>error := Some NO_IMAGE_MSG\<rparr>\<rparr>)
      | Some f \<Rightarrow>
          (Suspended (AwaitEncode f),
           w\<lparr>ui := (ui w)\<lparr>isLoading := True, error := None, extractedText := []\<rparr>,
             calls := calls w @ [FileToBase64 f]\<rparr>))"

text \<open>The \<open>catch (err)\<close> block and the \<open>finally\<close> block.\<close>

definition catch_block :: "exn \<Rightarrow> world \<Rightarrow> world" where
  "catch_block err w =
     w\<lparr>console := console w @ [err], ui := (ui w)\<lparr>error := Some EXTRACT_FAILED_MSG\<rparr>\<rparr>"

definition finally_block :: "world \<Rightarrow> world" where
  "finally_block w = w\<lparr>ui := (ui w)\<lparr>isLoading := False\<rparr>\<rparr>"

text \<open>
  The handler resumed when the awaited promise settles. Both \<open>await\<close>s stand inside
  the \<open>try\<close>, so a rejection at either goes through \<open>catch\<close> and \<open>finally\<close>. (A
  collaborator that throws before returning its promise is the same promise rejected at
  once.)
\<close>

fun resume :: "pending \<Rightarrow> jsstring settled \<Rightarrow> world \<Rightarrow> completion \<times> world" where
  "resume (AwaitEncode img) (Fulfilled base64Image) w =
     (let mimeType = file_type img in
      (Suspended (AwaitExtract img),
       w\<lparr>calls := calls w @ [ExtractTextFromImage base64Image mimeType]\<rparr>))"
| "resume (AwaitExtract img) (Fulfilled result) w =
     (Returned, finally_block (w\<lparr>ui := (ui w)\<lparr>extractedText := result\<rparr>\<rparr>))"
| "resume p (Rejected err) w = (Returned, finally_block (catch_block err w))"

text \<open>
  The event loop keeps a suspended handler in flight; an exception that left the handler
  would be an unhandled rejection.
\<close>

definition schedule :: "completion \<times> world \<Rightarrow> world" where
  "schedule cw =
     (case cw of
        (Suspended p, w) \<Rightarrow> w\<lparr>inflight := inflight w @ [p]\<rparr>
      | (Returned, w) \<Rightarrow> w
      | (Threw e, w) \<Rightarrow> w\<lparr>unhandled := unhandled w @ [e]\<rparr>)"

text \<open>
  The extraction button of \<open>App\<close>: rendered only for a truthy \<open>imageUrl\<close>, with
  \<^verbatim>\<open>disabled={isLoading}\<close>. \<open>None\<close>: not rendered; \<open>Some d\<close>: rendered, disabled
  iff \<open>d\<close>.
\<close>

definition extract_button :: "app_state \<Rightarrow> bool option" where
  "extract_button s = (if truthy (imageUrl s) then Some (isLoading s) else None)"

text \<open>
  One turn of the event loop: the user selects a file, the user clicks the extraction
  button (possible only when it is rendered and enabled), or the promise awaited by the
  \<open>i\<close>-th handler in flight settles.
\<close>

datatype event = SelectImage js_file jsstring | ClickExtract | Settle nat "jsstring settled"

fun step :: "event \<Rightarrow> world \<Rightarrow> world option" where
  "step (SelectImage f url) w = Some (handleImageSelect f url w)"
| "step ClickExtract w =
     (if extract_button (ui w) = Some False then Some (schedule (handleExtractText w))
      else None)"
| "step (Settle i r) w =
     (if i < length (inflight w)
      then Some (schedule (resume (inflight w ! i) r
                   (w\<lparr>inflight := take i (inflight w) @ drop (Suc i) (inflight w)\<rparr>)))
      else None)"

fun run :: "event list \<Rightarrow> world \<Rightarrow> world option" where
  "run [] w = Some w"
| "run (e # es) w = (case step e w of None \<Rightarrow> None | Some w' \<Rightarrow> run es w')"

text \<open>What \<open>App\<close> passes to \<open>ResultDisplay\<close>.\<close>

definition result_view_of :: "world \<Rightarrow> result_view" where
  "result_view_of w =
     ResultDisplay (extractedText (ui w)) (isLoading (ui w)) (error (ui w))"

section \<open>An exact first-character lookup\<close>

text \<open>
  The lookup the specification describes: the one legend entry whose marker is exactly
  the line's first character, whatever its place in the list; no entry for the empty
  line, nor when no entry or more than one has that marker.
\<close>

definition lookup_marker :: "legend_item list \<Rightarrow> jsstring \<Rightarrow> legend_item option" where
  "lookup_marker legend line =
     (case line of
        [] \<Rightarrow> None
      | c # _ \<Rightarrow>
          (case filter (\<lambda>item. char item = [c]) legend of
             [item] \<Rightarrow> Some item
           | _ \<Rightarrow> None))"

text \<open>\<open>renderText\<close> over another legend list.\<close>

definition render_line_with :: "legend_item list \<Rightarrow> jsstring \<Rightarrow> nat \<Rightarrow> line_div" where
  "render_line_with legend line index =
     (case find_marker legend line of
        Some marker \<Rightarrow> MarkedDiv index (color marker) (char marker) (trim (substring 1 line))
      | None \<Rightarrow> PlainDiv index line)"

definition renderText_with :: "legend_item list \<Rightarrow> jsstring \<Rightarrow> line_div list" where
  "renderText_with legend text =
     map (\<lambda>(index, line). render_line_with legend line index) (enumerate 0 (split_str NL text))"

text \<open>Two files and their object URLs, for the examples.\<close>

definition file_A :: js_file where
  "file_A = \<lparr> file_name = js ''a.png'', file_type = js ''image/png'', file_bytes = [0x89, 0x50] \<rparr>"

definition file_B :: js_file where
  "file_B = \<lparr> file_name = js ''b.jpg'', file_type = js ''image/jpeg'', file_bytes = [0xFF, 0xD8] \<rparr>"

definition url_A :: jsstring where
  "url_A = js ''blob:a''"

definition url_B :: jsstring where
  "url_B = js ''blob:b''"

text \<open>The states the event loop keeps to, from the initial one.\<close>

definition inv :: "world \<Rightarrow> bool" where
  "inv w =
     (length (inflight w) = (if isLoading (ui w) then 1 else 0) \<and>
      (isLoading (ui w) \<longrightarrow> extractedText (ui w) = []) \<and>
      (imageFile (ui w) = None \<longrightarrow>
         imageUrl (ui w) = None \<and> \<not> isLoading (ui w) \<and> calls w = [] \<and>
         extractedText (ui w) = []) \<and>
      unhandled w = [])"

section \<open>Properties of the string operations\<close>


lemma split_str_Nil: "split_str sep [] = [[]]"
  by (simp add: split_str.simps)

lemma split_str_sep: "split_str sep (sep # cs) = [] # split_str sep cs"
  by (subst split_str.simps) simp

lemma split_str_Cons:
  assumes "c \<noteq> sep"
  shows "split_str sep (c # cs) = (c # hd (split_str sep cs)) # tl (split_str sep cs)"
proof -
  have d: "dropWhile (\<lambda>c. c \<noteq> sep) (c # cs) = dropWhile (\<lambda>c. c \<noteq> sep) cs"
    and t: "takeWhile (\<lambda>c. c \<noteq> sep) (c # cs) = c # takeWhile (\<lambda>c. c \<noteq> sep) cs"
    using assms by simp_all
  show ?thesis
  proof (cases "dropWhile (\<lambda>c. c \<noteq> sep) cs")
    case Nil
    have "split_str sep cs = [cs]"
      by (subst split_str.simps) (simp only: Nil list.case)
    moreover have "split_str sep (c # cs) = [c # cs]"
      by (subst split_str.simps) (simp only: d Nil list.case)
    ultimately show ?thesis by simp
  next
    case (Cons x rest)
    have "split_str sep cs = takeWhile (\<lambda>c. c \<noteq> sep) cs # split_str sep rest"
      by (subst split_str.simps) (simp only: Cons list.case)
    moreover have "split_str sep (c # cs) =
        (c # takeWhile (\<lambda>c. c \<noteq> sep) cs) # split_str sep rest"
      by (subst split_str.simps) (simp only: d t Cons list.case)
    ultimately show ?thesis by simp
  qed
qed

lemma split_str_ne: "split_str sep s \<noteq> []"
  by (subst split_str.simps) (simp split: list.splits)

lemma length_split_str: "length (split_str sep s) = count_list s sep + 1"
proof (induction s)
  case Nil
  show ?case by (simp add: split_str_Nil)
next
  case (Cons c cs)
  show ?case
  proof (cases "c = sep")
    case True
    with Cons show ?thesis by (simp add: split_str_sep)
  next
    case False
    have "length (tl (split_str sep cs)) = length (split_str sep cs) - 1" by simp
    with False Cons show ?thesis by (simp add: split_str_Cons)
  qed
qed

lemma join_str_Cons_hd:
  "join_str sep ((c # h) # t) = c # join_str sep (h # t)"
  by (cases t) simp_all

lemma join_str_Nil_Cons:
  "segs \<noteq> [] \<Longrightarrow> join_str sep ([] # segs) = sep # join_str sep segs"
  by (cases segs) auto

lemma join_split_str: "join_str sep (split_str sep s) = s"
proof (induction s)
  case Nil
  show ?case by (simp add: split_str_Nil)
next
  case (Cons c cs)
  show ?case
  proof (cases "c = sep")
    case True
    with Cons show ?thesis by (simp add: split_str_sep join_str_Nil_Cons split_str_ne)
  next
    case False
    obtain h t where ht: "split_str sep cs = h # t"
      using split_str_ne [of sep cs] by (cases "split_str sep cs") auto
    with False Cons show ?thesis by (simp add: split_str_Cons join_str_Cons_hd)
  qed
qed

lemma split_str_segments: "seg \<in> set (split_str sep s) \<Longrightarrow> sep \<notin> set seg"
proof (induction s arbitrary: seg)
  case Nil
  then show ?case by (simp add: split_str_Nil)
next
  case (Cons c cs)
  show ?case
  proof (cases "c = sep")
    case True
    with Cons show ?thesis by (auto simp: split_str_sep)
  next
    case False
    obtain h t where ht: "split_str sep cs = h # t"
      using split_str_ne [of sep cs] by (cases "split_str sep cs") auto
    with False Cons.prems have "seg = c # h \<or> seg \<in> set t"
      by (simp add: split_str_Cons)
    then show ?thesis
    proof
      assume "seg = c # h"
      moreover have "sep \<notin> set h" using Cons.IH [of h] ht by simp
      ultimately show ?thesis using False by simp
    next
      assume "seg \<in> set t"
      then show ?thesis using Cons.IH [of seg] ht by simp
    qed
  qed
qed


lemma trim_decomp:
  "\<exists>pre suf. s = pre @ trim s @ suf \<and> list_all isWhiteSpace pre \<and> list_all isWhiteSpace suf"
proof -
  let ?a = "takeWhile isWhiteSpace s"
  let ?b = "dropWhile isWhiteSpace s"
  let ?suf = "rev (takeWhile isWhiteSpace (rev ?b))"
  have 1: "s = ?a @ ?b" by simp
  have "rev ?b = takeWhile isWhiteSpace (rev ?b) @ dropWhile isWhiteSpace (rev ?b)" by simp
  then have "rev (rev ?b) = rev (takeWhile isWhiteSpace (rev ?b) @ dropWhile isWhiteSpace (rev ?b))" by simp
  then have 2: "?b = trim s @ ?suf" unfolding trim_def by (simp only: rev_append rev_rev_ident)
  have 3: "list_all isWhiteSpace ?a" unfolding list_all_iff by (blast dest: set_takeWhileD)
  have 4: "list_all isWhiteSpace ?suf" unfolding list_all_iff set_rev by (blast dest: set_takeWhileD)
  from 1 2 have "s = ?a @ trim s @ ?suf" by simp
  with 3 4 show ?thesis by blast
qed

lemma dropWhile_hd: "dropWhile P xs \<noteq> [] \<Longrightarrow> \<not> P (hd (dropWhile P xs))"
  by (metis hd_dropWhile)

lemma trim_ends:
  assumes "trim s \<noteq> []"
  shows "\<not> isWhiteSpace (hd (trim s)) \<and> \<not> isWhiteSpace (last (trim s))"
proof -
  let ?b = "dropWhile isWhiteSpace s"
  let ?r = "dropWhile isWhiteSpace (rev ?b)"
  have r: "?r \<noteq> []" using assms by (simp add: trim_def)
  then have "\<not> isWhiteSpace (hd ?r)" by (rule dropWhile_hd)
  then have l: "\<not> isWhiteSpace (last (trim s))" using r by (simp add: trim_def last_rev)
  have b: "?b \<noteq> []" using r by (cases ?b) simp_all
  then have hb: "\<not> isWhiteSpace (hd ?b)" by (rule dropWhile_hd)
  have "\<exists>suf. ?b = trim s @ suf"
    by (metis trim_def rev_append rev_rev_ident takeWhile_dropWhile_id)
  then obtain suf where "?b = trim s @ suf" ..
  with assms have "hd ?b = hd (trim s)" by (metis hd_append2)
  with hb l show ?thesis by simp
qed



lemma markers_of_legend: "map char LEGEND_ITEMS = map (\<lambda>c. [c]) (js ''#$&()/_'')"
  by (simp add: LEGEND_ITEMS_def js_def)

lemma legend_distinct: "distinct (map char LEGEND_ITEMS)"
  by (simp add: markers_of_legend js_def)

lemma legend_single: "item \<in> set LEGEND_ITEMS \<Longrightarrow> length (char item) = 1"
proof -
  assume "item \<in> set LEGEND_ITEMS"
  then have "char item \<in> set (map char LEGEND_ITEMS)" by simp
  then show ?thesis unfolding markers_of_legend by auto
qed

lemma startsWith_single: "length m = 1 \<Longrightarrow> startsWith line m = (line \<noteq> [] \<and> m = [hd line])"
  by (cases m; cases line) (auto simp: startsWith_def)

lemma find_marker_Nil: "find_marker legend [] = None \<longleftrightarrow> (\<forall>item\<in>set legend. char item \<noteq> [])"
  by (induction legend) (auto simp: find_marker_def startsWith_def)

lemma find_marker_single:
  assumes "\<forall>item\<in>set legend. length (char item) = 1"
  shows "find_marker legend (c # rest) = find (\<lambda>item. char item = [c]) legend"
  using assms by (induction legend) (auto simp: find_marker_def startsWith_single)

lemma find_marker_legend_Cons:
  "find_marker LEGEND_ITEMS (c # rest) = find (\<lambda>item. char item = [c]) LEGEND_ITEMS"
  by (rule find_marker_single) (simp add: legend_single)

lemma find_marker_legend_Nil: "find_marker LEGEND_ITEMS [] = None"
  unfolding find_marker_Nil using legend_single by fastforce

lemma find_None_markers:
  "find (\<lambda>item. char item = m) legend = None \<longleftrightarrow> m \<notin> set (map char legend)"
  by (induction legend) auto

lemma find_Some_markers:
  "find (\<lambda>item. char item = m) legend = Some item \<Longrightarrow> item \<in> set legend \<and> char item = m"
  by (induction legend) (auto split: if_splits)

lemma render_line_Nil: "render_line [] index = PlainDiv index []"
  by (simp add: render_line_def find_marker_legend_Nil)

lemma render_line_unmarked:
  assumes "c \<notin> set (js ''#$&()/_'')"
  shows "render_line (c # rest) index = PlainDiv index (c # rest)"
proof -
  have "[c] \<notin> set (map char LEGEND_ITEMS)"
    unfolding markers_of_legend using assms by auto
  then have "find_marker LEGEND_ITEMS (c # rest) = None"
    by (simp only: find_marker_legend_Cons find_None_markers not_False_eq_True)
  then show ?thesis by (simp add: render_line_def)
qed

lemma render_line_marked:
  assumes "c \<in> set (js ''#$&()/_'')"
  shows "\<exists>item\<in>set LEGEND_ITEMS. char item = [c] \<and>
           render_line (c # rest) index = MarkedDiv index (color item) (char item) (trim rest)"
proof -
  have "[c] \<in> set (map char LEGEND_ITEMS)"
    unfolding markers_of_legend using assms by auto
  then have "find_marker LEGEND_ITEMS (c # rest) \<noteq> None"
    by (simp only: find_marker_legend_Cons find_None_markers not_not)
  then obtain item where f: "find_marker LEGEND_ITEMS (c # rest) = Some item"
    by blast
  then have "item \<in> set LEGEND_ITEMS \<and> char item = [c]"
    unfolding find_marker_legend_Cons by (rule find_Some_markers)
  moreover have "render_line (c # rest) index = MarkedDiv index (color item) (char item) (trim rest)"
    by (simp add: render_line_def f substring_def)
  ultimately show ?thesis by blast
qed

lemma trim_Nil: "trim [] = []"
  by (simp add: trim_def)

lemma renderText_nth:
  assumes "i < length (split_str NL text)"
  shows "renderText text ! i = render_line (split_str NL text ! i) i"
  using assms by (simp add: renderText_def nth_enumerate_eq)

lemma length_renderText: "length (renderText text) = length (split_str NL text)"
  by (simp add: renderText_def)

section \<open>The renderer\<close>

text \<open>
  Claim C4. For every input string, \<open>renderText\<close> splits it at each LINE FEED and
  returns exactly one row per segment, in the segments' order: the \<open>i\<close>-th row is
  the \<open>i\<close>-th segment rendered with key \<open>i\<close>. The segments are those of the input:
  there is one more than there are LINE FEEDs, none contains a LINE FEED, and joined by
  LINE FEEDs they give the input back. An empty segment becomes an unmarked row with
  empty text.
\<close>


theorem renderText_one_div_per_segment:
  "length (renderText text) = length (split_str NL text) \<and>
   length (renderText text) = count_list text NL + 1 \<and>
   join_str NL (split_str NL text) = text \<and>
   (\<forall>seg\<in>set (split_str NL text). NL \<notin> set seg) \<and>
   (\<forall>i<length (split_str NL text).
      renderText text ! i = render_line (split_str NL text ! i) i \<and>
      (split_str NL text ! i = [] \<longrightarrow> renderText text ! i = PlainDiv i []))"
proof -
  have "\<forall>i<length (split_str NL text).
      renderText text ! i = render_line (split_str NL text ! i) i \<and>
      (split_str NL text ! i = [] \<longrightarrow> renderText text ! i = PlainDiv i [])"
    by (simp add: renderText_nth render_line_Nil)
  moreover have "\<forall>seg\<in>set (split_str NL text). NL \<notin> set seg"
    using split_str_segments by blast
  ultimately show ?thesis
    by (simp only: length_renderText length_split_str join_split_str simp_thms)
qed

theorem renderText_one_div_per_segment_witness:
  "length (renderText (js ''#Hi'' @ [NL, NL] @ js ''plain'')) = 3 \<and>
   renderText (js ''#Hi'' @ [NL, NL] @ js ''plain'') ! 0 =
     MarkedDiv 0 (js ''text-cyan-400'') (js ''#'') (js ''Hi'') \<and>
   renderText (js ''#Hi'' @ [NL, NL] @ js ''plain'') ! 1 = PlainDiv 1 [] \<and>
   renderText (js ''#Hi'' @ [NL, NL] @ js ''plain'') ! 2 = PlainDiv 2 (js ''plain'')"
proof -
  let ?t = "js ''#Hi'' @ [NL, NL] @ js ''plain''"
  have s: "split_str NL ?t = [js ''#Hi'', [], js ''plain'']"
    by code_simp
  have r0: "render_line (js ''#Hi'') 0 = MarkedDiv 0 (js ''text-cyan-400'') (js ''#'') (js ''Hi'')"
    by code_simp
  have r2: "render_line (js ''plain'') 2 = PlainDiv 2 (js ''plain'')"
    by code_simp
  note c = renderText_one_div_per_segment [of ?t, unfolded s]
  from c have len: "length (renderText ?t) = length [js ''#Hi'', [], js ''plain'']"
    by (rule conjunct1)
  from c have nth: "\<forall>i<length [js ''#Hi'', [], js ''plain''].
      renderText ?t ! i = render_line ([js ''#Hi'', [], js ''plain''] ! i) i \<and>
      ([js ''#Hi'', [], js ''plain''] ! i = [] \<longrightarrow> renderText ?t ! i = PlainDiv i [])"
    by blast
  have "renderText ?t ! 0 = render_line (js ''#Hi'') 0"
    using nth [rule_format, of 0] by simp
  moreover have "renderText ?t ! 1 = PlainDiv 1 []"
    using nth [rule_format, of 1] by (simp add: render_line_Nil)
  moreover have "renderText ?t ! 2 = render_line (js ''plain'') 2"
    using nth [rule_format, of 2] by simp
  ultimately show ?thesis
    using len r0 r2 by simp
qed


text \<open>
  Claim C1, as stated, fails: the legend's \<open>_\<close> entry is matched like the other six.
  The line \<open>_Random sfx\<close> does not start with any of \<open>#$&()/\<close>, yet it is not
  rendered as an unmarked row: it is rendered with the marker \<open>_\<close> and the text
  \<open>Random sfx\<close>.
\<close>


theorem underscore_line_is_matched:
  "hd (js ''_Random sfx'') \<notin> set (js ''#$&()/'') \<and>
   render_line (js ''_Random sfx'') 0 \<noteq> PlainDiv 0 (js ''_Random sfx'') \<and>
   renderText (js ''_Random sfx'') =
     [MarkedDiv 0 (js ''text-gray-400'') (js ''_'') (js ''Random sfx'')]"
  by code_simp


text \<open>
  Claim C1, amended. A line that is empty or whose first code unit is none of the seven
  markers \<open>#$&()/_\<close> is rendered as an unmarked row holding the line as it is,
  untrimmed. A line that starts with \<open>_\<close> is matched by the legend's \<open>_\<close> entry:
  its row carries the marker \<open>_\<close>, that entry's colour and the rest of the line,
  trimmed.
\<close>


theorem unmarked_line_kept:
  "(line = [] \<or> hd line \<notin> set (js ''#$&()/_'') \<longrightarrow> render_line line index = PlainDiv index line) \<and>
   render_line (js ''_'' @ rest) index =
     MarkedDiv index (js ''text-gray-400'') (js ''_'') (trim rest)"
proof -
  have "render_line line index = PlainDiv index line"
    if "line = [] \<or> hd line \<notin> set (js ''#$&()/_'')"
  proof (cases line)
    case Nil
    then show ?thesis by (simp add: render_line_Nil)
  next
    case (Cons c cs)
    with that show ?thesis by (simp add: render_line_unmarked)
  qed
  moreover have "render_line (js ''_'' @ rest) index =
     MarkedDiv index (js ''text-gray-400'') (js ''_'') (trim rest)"
    by (simp add: render_line_def find_marker_def LEGEND_ITEMS_def startsWith_def js_def
        substring_def)
  ultimately show ?thesis by blast
qed

theorem unmarked_line_kept_witness:
  "render_line (js '' plain text '') 3 = PlainDiv 3 (js '' plain text '') \<and>
   render_line (js ''_Random sfx'') 0 =
     MarkedDiv 0 (js ''text-gray-400'') (js ''_'') (js ''Random sfx'')"
proof -
  have h: "hd (js '' plain text '') \<notin> set (js ''#$&()/_'')"
    by (simp add: js_def)
  have t: "trim (js ''Random sfx'') = js ''Random sfx''"
    by code_simp
  have "render_line (js '' plain text '') 3 = PlainDiv 3 (js '' plain text '')"
    using unmarked_line_kept [of "js '' plain text ''" 3] h by blast
  moreover have "render_line (js ''_'' @ js ''Random sfx'') 0 =
     MarkedDiv 0 (js ''text-gray-400'') (js ''_'') (trim (js ''Random sfx''))"
    using unmarked_line_kept [of "[]" 0 "js ''Random sfx''"] by blast
  ultimately show ?thesis
    by (simp add: t) (simp add: js_def)
qed


text \<open>
  Claim C3, as stated, fails: \<open>renderText\<close> of the empty string is not the empty
  sequence; it has one row.
\<close>


theorem renderText_empty_not_empty: "renderText [] \<noteq> [] \<and> length (renderText []) = 1"
  by code_simp


text \<open>
  Claim C3, amended. \<open>renderText\<close> of the empty string is exactly one unmarked row
  with empty text (and key 0). \<open>ResultDisplay\<close> never shows that row: for an empty
  \<open>extractedText\<close> it shows the placeholder when it is neither loading nor in error,
  and no body otherwise.
\<close>


theorem renderText_empty:
  "renderText [] = [PlainDiv 0 []] \<and>
   body (ResultDisplay [] loading err) =
     (if \<not> loading \<and> \<not> truthy err then Some Placeholder else None)"
  by (simp add: renderText_def split_str_Nil render_line_Nil ResultDisplay_def)

theorem renderText_empty_witness:
  "renderText [] = [PlainDiv 0 []] \<and> body (ResultDisplay [] False None) = Some Placeholder"
  using renderText_empty [of False None] by (simp add: truthy_def)


text \<open>
  Claim C5. For every line whose first code unit is a legend marker (any of
  \<open>#$&()/_\<close>), the row carries the legend entry of that marker, and its text is the
  line without its first code unit, trimmed: what \<open>trim\<close> cuts off at either end is
  white space only, and what it leaves neither starts nor ends with white space. A line
  that is a marker alone has empty text.
\<close>


theorem marked_line_stripped:
  "line \<noteq> [] \<and> hd line \<in> set (js ''#$&()/_'') \<longrightarrow>
     (\<exists>item\<in>set LEGEND_ITEMS.
        char item = [hd line] \<and>
        render_line line index = MarkedDiv index (color item) (char item) (trim (tl line)) \<and>
        render_line [hd line] index = MarkedDiv index (color item) (char item) []) \<and>
     (\<exists>pre suf. tl line = pre @ trim (tl line) @ suf \<and>
        list_all isWhiteSpace pre \<and> list_all isWhiteSpace suf) \<and>
     (trim (tl line) \<noteq> [] \<longrightarrow>
        \<not> isWhiteSpace (hd (trim (tl line))) \<and> \<not> isWhiteSpace (last (trim (tl line))))"
proof (intro impI, elim conjE)
  assume ne: "line \<noteq> []" and m: "hd line \<in> set (js ''#$&()/_'')"
  then obtain c rest where line: "line = c # rest"
    by (cases line) auto
  from m line have c: "c \<in> set (js ''#$&()/_'')"
    by simp
  obtain item where i: "item \<in> set LEGEND_ITEMS" "char item = [c]"
    "render_line (c # rest) index = MarkedDiv index (color item) (char item) (trim rest)"
    using render_line_marked [OF c, of rest index] by blast
  obtain item' where i': "item' \<in> set LEGEND_ITEMS" "char item' = [c]"
    "render_line [c] index = MarkedDiv index (color item') (char item') (trim [])"
    using render_line_marked [OF c, of "[]" index] by blast
  have "item' = item"
    using i(1,2) i'(1,2) legend_distinct
    by (metis distinct_map inj_on_def)
  with i i' have "\<exists>item\<in>set LEGEND_ITEMS.
        char item = [hd line] \<and>
        render_line line index = MarkedDiv index (color item) (char item) (trim (tl line)) \<and>
        render_line [hd line] index = MarkedDiv index (color item) (char item) []"
    using line by (auto simp: trim_Nil)
  then show "(\<exists>item\<in>set LEGEND_ITEMS.
        char item = [hd line] \<and>
        render_line line index = MarkedDiv index (color item) (char item) (trim (tl line)) \<and>
        render_line [hd line] index = MarkedDiv index (color item) (char item) []) \<and>
     (\<exists>pre suf. tl line = pre @ trim (tl line) @ suf \<and>
        list_all isWhiteSpace pre \<and> list_all isWhiteSpace suf) \<and>
     (trim (tl line) \<noteq> [] \<longrightarrow>
        \<not> isWhiteSpace (hd (trim (tl line))) \<and> \<not> isWhiteSpace (last (trim (tl line))))"
    using trim_decomp [of "tl line"] trim_ends [of "tl line"] by blast
qed

theorem marked_line_stripped_witness:
  "render_line (js ''#Hello there  '') 0 =
     MarkedDiv 0 (js ''text-cyan-400'') (js ''#'') (js ''Hello there'') \<and>
   render_line (js ''#'') 0 = MarkedDiv 0 (js ''text-cyan-400'') (js ''#'') []"
proof -
  let ?l = "js ''#Hello there  ''"
  have h: "?l \<noteq> [] \<and> hd ?l \<in> set (js ''#$&()/_'')"
    by (simp add: js_def)
  have t: "trim (tl ?l) = js ''Hello there''"
    by code_simp
  have hd: "[hd ?l] = js ''#''"
    by (simp add: js_def)
  from marked_line_stripped [of ?l 0] h obtain item where
    i: "item \<in> set LEGEND_ITEMS" "char item = [hd ?l]"
      "render_line ?l 0 = MarkedDiv 0 (color item) (char item) (trim (tl ?l))"
      "render_line [hd ?l] 0 = MarkedDiv 0 (color item) (char item) []"
    by blast
  have "color item = js ''text-cyan-400''"
    using i(1,2) unfolding hd by (auto simp: LEGEND_ITEMS_def js_def)
  with i show ?thesis
    unfolding t hd by simp
qed

section \<open>The ordered scan and the exact lookup\<close>

lemma filter_key_le1: "distinct (map f xs) \<Longrightarrow> length (filter (\<lambda>x. f x = k) xs) \<le> 1"
proof (induction xs)
  case Nil
  show ?case by simp
next
  case (Cons x xs)
  show ?case
  proof (cases "f x = k")
    case True
    with Cons.prems have "k \<notin> f ` set xs" by simp
    then have "\<forall>y\<in>set xs. f y \<noteq> k" by blast
    then have "filter (\<lambda>x. f x = k) xs = []" by (simp add: filter_empty_conv)
    with True show ?thesis by simp
  next
    case False
    with Cons show ?thesis by simp
  qed
qed

lemma find_via_filter: "find P xs = (case filter P xs of [] \<Rightarrow> None | x # _ \<Rightarrow> Some x)"
  by (induction xs) auto

lemma filter_perm_le1:
  assumes "mset ys = mset xs" and "length (filter P xs) \<le> 1"
  shows "filter P ys = filter P xs"
proof -
  have m: "mset (filter P ys) = mset (filter P xs)"
    using assms(1) by (metis mset_filter)
  show ?thesis
  proof (cases "filter P xs")
    case Nil
    with m show ?thesis by simp
  next
    case (Cons x rest)
    with assms(2) have x: "filter P xs = [x]" by simp
    with m have e: "mset (filter P ys) = mset [x]" by (simp only:)
    have "length (filter P ys) = length [x]" using e by (rule mset_eq_length)
    moreover have "set (filter P ys) = set [x]" using e by (rule mset_eq_setD)
    ultimately have "filter P ys = [x]"
      by (cases "filter P ys") auto
    with x show ?thesis by simp
  qed
qed

lemma legend_scan:
  assumes d: "distinct (map char legend)"
    and s: "\<forall>item\<in>set legend. length (char item) = 1"
  shows "length (filter (\<lambda>item. startsWith line (char item)) legend) \<le> 1"
    and "find_marker legend line = lookup_marker legend line"
    and "mset legend' = mset legend \<Longrightarrow> find_marker legend' line = find_marker legend line"
proof -
  have f: "filter (\<lambda>item. startsWith line (char item)) legend =
      (case line of [] \<Rightarrow> [] | c # _ \<Rightarrow> filter (\<lambda>item. char item = [c]) legend)"
    using s by (cases line) (auto simp: startsWith_single filter_empty_conv intro: filter_cong)
  show le: "length (filter (\<lambda>item. startsWith line (char item)) legend) \<le> 1"
    unfolding f using filter_key_le1 [OF d] by (cases line) simp_all
  show "find_marker legend line = lookup_marker legend line"
  proof (cases line)
    case Nil
    then show ?thesis using f by (simp add: find_marker_def find_via_filter lookup_marker_def)
  next
    case (Cons c rest)
    have "length (filter (\<lambda>item. char item = [c]) legend) \<le> 1"
      using filter_key_le1 [OF d] .
    then have "filter (\<lambda>item. char item = [c]) legend = [] \<or>
        (\<exists>x. filter (\<lambda>item. char item = [c]) legend = [x])"
      by (cases "filter (\<lambda>item. char item = [c]) legend") auto
    then show ?thesis
      using f Cons by (auto simp: find_marker_def find_via_filter lookup_marker_def)
  qed
  show "find_marker legend' line = find_marker legend line" if "mset legend' = mset legend"
    using filter_perm_le1 [OF that le] by (simp add: find_marker_def find_via_filter)
qed

text \<open>
  Claim C8. The markers of \<open>LEGEND_ITEMS\<close> are pairwise distinct strings of one code
  unit each. So, for every line, at most one entry matches; the ordered scan of
  \<open>renderText\<close> finds the same entry as the exact lookup of the line's first
  character; and for every reordering of the legend the scan finds the same entry and
  \<open>renderText\<close> returns the same rows.
\<close>

theorem legend_scan_is_exact_lookup:
  "distinct (map char LEGEND_ITEMS) \<and>
   (\<forall>item\<in>set LEGEND_ITEMS. length (char item) = 1) \<and>
   length (filter (\<lambda>item. startsWith line (char item)) LEGEND_ITEMS) \<le> 1 \<and>
   find_marker LEGEND_ITEMS line = lookup_marker LEGEND_ITEMS line \<and>
   (mset legend' = mset LEGEND_ITEMS \<longrightarrow>
      find_marker legend' line = find_marker LEGEND_ITEMS line \<and>
      renderText_with legend' text = renderText text)"
proof -
  have s: "\<forall>item\<in>set LEGEND_ITEMS. length (char item) = 1"
    by (simp add: legend_single)
  note l = legend_scan [OF legend_distinct s]
  have "find_marker legend' line = find_marker LEGEND_ITEMS line \<and>
      renderText_with legend' text = renderText text"
    if p: "mset legend' = mset LEGEND_ITEMS"
  proof -
    have "find_marker legend' ln = find_marker LEGEND_ITEMS ln" for ln
      using p by (rule l(3))
    then have "render_line_with legend' ln i = render_line ln i" for ln i
      by (simp add: render_line_with_def render_line_def)
    then have "renderText_with legend' text = renderText text"
      by (simp add: renderText_with_def renderText_def)
    with l(3) [OF p, of line] show ?thesis
      by simp
  qed
  with l(1,2) [of line] legend_distinct s show ?thesis
    by blast
qed

theorem legend_scan_is_exact_lookup_witness:
  "length (filter (\<lambda>item. startsWith (js ''(boom'') (char item)) LEGEND_ITEMS) \<le> 1 \<and>
   find_marker LEGEND_ITEMS (js ''(boom'') = lookup_marker LEGEND_ITEMS (js ''(boom'') \<and>
   find_marker (rev LEGEND_ITEMS) (js ''(boom'') = find_marker LEGEND_ITEMS (js ''(boom'') \<and>
   renderText_with (rev LEGEND_ITEMS) (js ''(boom'') = renderText (js ''(boom'')"
proof -
  have "mset (rev LEGEND_ITEMS) = mset LEGEND_ITEMS"
    by simp
  then show ?thesis
    using legend_scan_is_exact_lookup [of "js ''(boom''" "rev LEGEND_ITEMS" "js ''(boom''"]
    by blast
qed

section \<open>The event loop\<close>

lemma inv_init: "inv init_world"
  by (simp add: inv_def init_world_def)

lemma inv_select: "inv w \<Longrightarrow> inv (handleImageSelect f url w)"
  by (simp add: inv_def handleImageSelect_def)

lemma button_enabled:
  assumes "inv w" and "extract_button (ui w) = Some False"
  shows "\<exists>f. imageFile (ui w) = Some f" and "\<not> isLoading (ui w)" and "inflight w = []"
proof -
  from assms(2) have t: "truthy (imageUrl (ui w))" and l: "\<not> isLoading (ui w)"
    by (auto simp: extract_button_def split: if_splits)
  from t have "imageUrl (ui w) \<noteq> None"
    by (auto simp: truthy_def split: option.splits)
  with assms(1) show "\<exists>f. imageFile (ui w) = Some f"
    by (auto simp: inv_def)
  from l show "\<not> isLoading (ui w)" .
  from l assms(1) show "inflight w = []"
    by (simp add: inv_def)
qed

lemma inv_click:
  assumes "inv w" and "extract_button (ui w) = Some False"
  shows "inv (schedule (handleExtractText w))"
proof -
  from button_enabled [OF assms] obtain f where
    f: "imageFile (ui w) = Some f" and e: "inflight w = []"
    by blast
  with assms(1) show ?thesis
    by (simp add: inv_def handleExtractText_def schedule_def)
qed

lemma inflight_single:
  assumes "inv w" and "i < length (inflight w)"
  shows "i = 0" and "isLoading (ui w)" and "inflight w = [inflight w ! 0]"
    and "extractedText (ui w) = []" and "\<exists>f. imageFile (ui w) = Some f"
proof -
  from assms have l: "isLoading (ui w)" and n: "length (inflight w) = 1"
    by (auto simp: inv_def split: if_splits)
  from n assms(2) show "i = 0" by simp
  from l show "isLoading (ui w)" .
  from n show "inflight w = [inflight w ! 0]"
    by (cases "inflight w") simp_all
  from l assms(1) show "extractedText (ui w) = []"
    by (simp add: inv_def)
  from l assms(1) show "\<exists>f. imageFile (ui w) = Some f"
    by (auto simp: inv_def)
qed

lemma inv_resume:
  assumes "inv w" and "inflight w = [p]"
  shows "inv (schedule (resume p r (w\<lparr>inflight := []\<rparr>)))"
proof -
  from assms have l: "isLoading (ui w)"
    by (auto simp: inv_def split: if_splits)
  with assms(1) obtain f where
    "extractedText (ui w) = []" "imageFile (ui w) = Some f" "unhandled w = []"
    by (auto simp: inv_def)
  with l show ?thesis
    by (cases p; cases r)
      (simp_all add: inv_def schedule_def finally_block_def catch_block_def)
qed

lemma inv_step:
  assumes "inv w" and "step e w = Some w'"
  shows "inv w'"
proof (cases e)
  case (SelectImage f url)
  with assms show ?thesis by (auto simp: inv_select)
next
  case ClickExtract
  with assms show ?thesis by (auto simp: inv_click split: if_splits)
next
  case (Settle i r)
  with assms(2) have i: "i < length (inflight w)"
    by (simp split: if_splits)
  note s = inflight_single [OF assms(1) i]
  have "take i (inflight w) @ drop (Suc i) (inflight w) = []"
    using s(1,3) by (metis append_Nil drop_Suc_Cons drop_Nil take_0)
  with Settle assms(2) i s(1)
  have "w' = schedule (resume (inflight w ! 0) r (w\<lparr>inflight := []\<rparr>))"
    by simp
  then show ?thesis
    using inv_resume [OF assms(1) s(3)] by simp
qed

lemma inv_run: "inv w \<Longrightarrow> run es w = Some w' \<Longrightarrow> inv w'"
proof (induction es arbitrary: w)
  case Nil
  then show ?case by simp
next
  case (Cons e es)
  then show ?case
    by (auto split: option.splits dest: inv_step)
qed

lemma reachable_inv: "run es init_world = Some w \<Longrightarrow> inv w"
  using inv_init by (rule inv_run)

lemma NO_IMAGE_MSG_ne: "NO_IMAGE_MSG \<noteq> []"
  by (simp add: NO_IMAGE_MSG_def)

lemma EXTRACT_FAILED_MSG_ne: "EXTRACT_FAILED_MSG \<noteq> []"
  by (simp add: EXTRACT_FAILED_MSG_def)

lemma run_snoc: "run (es @ [e]) w = (case run es w of None \<Rightarrow> None | Some w' \<Rightarrow> step e w')"
  by (induction es arbitrary: w) (auto split: option.splits)

lemma settle_rejected:
  assumes "inv w" and "i < length (inflight w)"
  shows "step (Settle i (Rejected err)) w =
    Some (w\<lparr>inflight := [], console := console w @ [err],
            ui := (ui w)\<lparr>error := Some EXTRACT_FAILED_MSG, isLoading := False\<rparr>\<rparr>)"
proof -
  note s = inflight_single [OF assms]
  have "take i (inflight w) @ drop (Suc i) (inflight w) = []"
    using s(1,3) by (metis append_Nil drop_Suc_Cons drop_Nil take_0)
  with assms(2) show ?thesis
    by (simp add: schedule_def finally_block_def catch_block_def)
qed

lemma settle_fulfilled_extract:
  assumes "inv w" and "inflight w = [AwaitExtract g]"
  shows "step (Settle 0 (Fulfilled t)) w =
    Some (w\<lparr>inflight := [], ui := (ui w)\<lparr>extractedText := t, isLoading := False\<rparr>\<rparr>)"
  using assms(2) by (simp add: schedule_def finally_block_def)

lemma settle_fulfilled_encode:
  assumes "inv w" and "inflight w = [AwaitEncode g]"
  shows "step (Settle 0 (Fulfilled b)) w =
    Some (w\<lparr>inflight := [AwaitExtract g],
            calls := calls w @ [ExtractTextFromImage b (file_type g)]\<rparr>)"
  using assms(2) by (simp add: schedule_def)

lemma run_select_click:
  "run [SelectImage file_A url_A, ClickExtract] init_world =
     Some \<lparr> ui = \<lparr> imageFile = Some file_A, imageUrl = Some url_A, extractedText = [],
                    isLoading = True, error = None \<rparr>,
            inflight = [AwaitEncode file_A], calls = [FileToBase64 file_A], console = [],
            unhandled = [] \<rparr>"
  by (simp add: extract_button_def handleImageSelect_def init_world_def truthy_def url_A_def
      js_def schedule_def handleExtractText_def)

lemma run_select_click_encoded:
  "run [SelectImage file_A url_A, ClickExtract, Settle 0 (Fulfilled (js ''iVBO''))] init_world =
     Some \<lparr> ui = \<lparr> imageFile = Some file_A, imageUrl = Some url_A, extractedText = [],
                    isLoading = True, error = None \<rparr>,
            inflight = [AwaitExtract file_A],
            calls = [FileToBase64 file_A, ExtractTextFromImage (js ''iVBO'') (js ''image/png'')],
            console = [], unhandled = [] \<rparr>"
proof -
  have "run ([SelectImage file_A url_A, ClickExtract] @ [Settle 0 (Fulfilled (js ''iVBO''))])
      init_world =
    step (Settle 0 (Fulfilled (js ''iVBO'')))
      \<lparr> ui = \<lparr> imageFile = Some file_A, imageUrl = Some url_A, extractedText = [],
                    isLoading = True, error = None \<rparr>,
            inflight = [AwaitEncode file_A], calls = [FileToBase64 file_A], console = [],
            unhandled = [] \<rparr>"
    unfolding run_snoc run_select_click by simp
  then show ?thesis
    by (simp add: schedule_def file_A_def)
qed

text \<open>
  Claim C9. From any state, selecting an image is possible and makes the selected file
  and its object URL the current selection, sets the extracted text to the empty string
  and the error to none. It changes nothing else: the loading flag, the request in
  flight, the recorded calls and the console stay as they are. ResultDisplay then shows
  no error, and the placeholder unless the loading flag is set.
\<close>

theorem select_image_resets_results:
  "step (SelectImage f url) w = Some (handleImageSelect f url w) \<and>
   imageFile (ui (handleImageSelect f url w)) = Some f \<and>
   imageUrl (ui (handleImageSelect f url w)) = Some url \<and>
   extractedText (ui (handleImageSelect f url w)) = [] \<and>
   error (ui (handleImageSelect f url w)) = None \<and>
   isLoading (ui (handleImageSelect f url w)) = isLoading (ui w) \<and>
   inflight (handleImageSelect f url w) = inflight w \<and>
   calls (handleImageSelect f url w) = calls w \<and>
   console (handleImageSelect f url w) = console w \<and>
   unhandled (handleImageSelect f url w) = unhandled w \<and>
   error_box (result_view_of (handleImageSelect f url w)) = None \<and>
   body (result_view_of (handleImageSelect f url w)) =
     (if isLoading (ui w) then None else Some Placeholder)"
  by (simp add: handleImageSelect_def result_view_of_def ResultDisplay_def truthy_def)

theorem select_image_resets_results_witness:
  "imageFile (ui (handleImageSelect file_B url_B init_world)) = Some file_B \<and>
   imageUrl (ui (handleImageSelect file_B url_B init_world)) = Some url_B \<and>
   extractedText (ui (handleImageSelect file_B url_B init_world)) = [] \<and>
   error (ui (handleImageSelect file_B url_B init_world)) = None \<and>
   body (result_view_of (handleImageSelect file_B url_B init_world)) = Some Placeholder"
  using select_image_resets_results [of file_B url_B init_world]
  by (simp add: init_world_def)

text \<open>
  Claim C6. When no image is selected, \<open>handleExtractText\<close> returns at once: it sets
  the error to the (non-empty) validation message and changes nothing else, so the
  loading flag is not set, no handler is left in flight and neither \<open>fileToBase64\<close>
  nor \<open>extractTextFromImage\<close> is called. In every state the event loop reaches with
  no image selected, the loading flag is clear, nothing is in flight and no call was ever
  made; after the trigger ResultDisplay shows the validation message, no overlay and no
  body.
\<close>

theorem trigger_without_image:
  "imageFile (ui w) = None \<longrightarrow>
     handleExtractText w = (Returned, w\<lparr>ui := (ui w)\<lparr>error := Some NO_IMAGE_MSG\<rparr>\<rparr>) \<and>
     NO_IMAGE_MSG \<noteq> [] \<and>
     isLoading (ui (schedule (handleExtractText w))) = isLoading (ui w) \<and>
     inflight (schedule (handleExtractText w)) = inflight w \<and>
     calls (schedule (handleExtractText w)) = calls w \<and>
     error (ui (schedule (handleExtractText w))) = Some NO_IMAGE_MSG \<and>
     (\<forall>es. run es init_world = Some w \<longrightarrow>
        \<not> isLoading (ui w) \<and> inflight w = [] \<and> calls w = [] \<and>
        result_view_of (schedule (handleExtractText w)) =
          \<lparr> overlay = False, error_box = Some NO_IMAGE_MSG, body = None \<rparr>)"
proof
  assume n: "imageFile (ui w) = None"
  then have h: "handleExtractText w = (Returned, w\<lparr>ui := (ui w)\<lparr>error := Some NO_IMAGE_MSG\<rparr>\<rparr>)"
    by (simp add: handleExtractText_def)
  have r: "\<not> isLoading (ui w) \<and> inflight w = [] \<and> calls w = [] \<and>
        result_view_of (schedule (handleExtractText w)) =
          \<lparr> overlay = False, error_box = Some NO_IMAGE_MSG, body = None \<rparr>"
    if "run es init_world = Some w" for es
  proof -
    from that have "inv w" by (rule reachable_inv)
    with n have "\<not> isLoading (ui w)" "inflight w = []" "calls w = []"
      by (auto simp: inv_def)
    then show ?thesis
      by (simp add: h schedule_def result_view_of_def ResultDisplay_def truthy_def
          NO_IMAGE_MSG_ne)
  qed
  show "handleExtractText w = (Returned, w\<lparr>ui := (ui w)\<lparr>error := Some NO_IMAGE_MSG\<rparr>\<rparr>) \<and>
     NO_IMAGE_MSG \<noteq> [] \<and>
     isLoading (ui (schedule (handleExtractText w))) = isLoading (ui w) \<and>
     inflight (schedule (handleExtractText w)) = inflight w \<and>
     calls (schedule (handleExtractText w)) = calls w \<and>
     error (ui (schedule (handleExtractText w))) = Some NO_IMAGE_MSG \<and>
     (\<forall>es. run es init_world = Some w \<longrightarrow>
        \<not> isLoading (ui w) \<and> inflight w = [] \<and> calls w = [] \<and>
        result_view_of (schedule (handleExtractText w)) =
          \<lparr> overlay = False, error_box = Some NO_IMAGE_MSG, body = None \<rparr>)"
    using r by (simp add: h schedule_def NO_IMAGE_MSG_ne)
qed

theorem trigger_without_image_witness:
  "handleExtractText init_world =
     (Returned, init_world\<lparr>ui := (ui init_world)\<lparr>error := Some NO_IMAGE_MSG\<rparr>\<rparr>) \<and>
   \<not> isLoading (ui (schedule (handleExtractText init_world))) \<and>
   inflight (schedule (handleExtractText init_world)) = [] \<and>
   calls (schedule (handleExtractText init_world)) = [] \<and>
   result_view_of (schedule (handleExtractText init_world)) =
     \<lparr> overlay = False, error_box = Some NO_IMAGE_MSG, body = None \<rparr>"
proof -
  have n: "imageFile (ui init_world) = None"
    by (simp add: init_world_def)
  have r: "run [] init_world = Some init_world"
    by simp
  have i: "\<not> isLoading (ui init_world)" "inflight init_world = []" "calls init_world = []"
    by (simp_all add: init_world_def)
  from trigger_without_image [of init_world] n r i show ?thesis
    by metis
qed

text \<open>
  Claim C10. In every state the event loop reaches from the initial one, at most one
  run of \<open>handleExtractText\<close> is in flight, and one is in flight exactly when the
  loading flag is set. While the flag is set the extraction button is not enabled, and a
  click on it is not a possible event.
\<close>

theorem one_request_in_flight:
  "run es init_world = Some w \<longrightarrow>
     length (inflight w) \<le> 1 \<and>
     (inflight w \<noteq> [] \<longleftrightarrow> isLoading (ui w)) \<and>
     (isLoading (ui w) \<longrightarrow> extract_button (ui w) \<noteq> Some False \<and> step ClickExtract w = None)"
proof
  assume "run es init_world = Some w"
  then have "inv w" by (rule reachable_inv)
  then have "length (inflight w) = (if isLoading (ui w) then 1 else 0)"
    by (simp add: inv_def)
  then show "length (inflight w) \<le> 1 \<and>
     (inflight w \<noteq> [] \<longleftrightarrow> isLoading (ui w)) \<and>
     (isLoading (ui w) \<longrightarrow> extract_button (ui w) \<noteq> Some False \<and> step ClickExtract w = None)"
    by (auto simp: extract_button_def split: if_splits)
qed

theorem one_request_in_flight_witness:
  "run [SelectImage file_A url_A, ClickExtract] init_world \<noteq> None \<and>
   isLoading (ui (the (run [SelectImage file_A url_A, ClickExtract] init_world))) \<and>
   inflight (the (run [SelectImage file_A url_A, ClickExtract] init_world)) = [AwaitEncode file_A] \<and>
   step ClickExtract (the (run [SelectImage file_A url_A, ClickExtract] init_world)) = None"
proof -
  let ?w = "schedule (handleExtractText (handleImageSelect file_A url_A init_world))"
  have b: "extract_button (ui (handleImageSelect file_A url_A init_world)) = Some False"
    by (simp add: extract_button_def handleImageSelect_def init_world_def truthy_def url_A_def
        js_def)
  then have r: "run [SelectImage file_A url_A, ClickExtract] init_world = Some ?w"
    by simp
  have l: "isLoading (ui ?w)" and i: "inflight ?w = [AwaitEncode file_A]"
    by (simp_all add: schedule_def handleExtractText_def handleImageSelect_def init_world_def)
  from one_request_in_flight [of "[SelectImage file_A url_A, ClickExtract]" ?w] r l
  have "step ClickExtract ?w = None"
    by blast
  with r l i show ?thesis
    by simp
qed

text \<open>
  Claim C7. A rejection at either \<open>await\<close> never leaves the handler: the resumed
  handler returns. In every reachable state with a request in flight, the rejection of
  the awaited promise, whatever the error, leads to the state with the static, non-empty
  failure message as error, the loading flag clear, the extracted text empty, nothing in
  flight and no unhandled rejection; the error goes to the console only, and
  ResultDisplay shows the message and no body.
\<close>

theorem failure_is_caught:
  "fst (resume p (Rejected err) w0) = Returned \<and>
   (run es init_world = Some w \<and> i < length (inflight w) \<longrightarrow>
      (\<exists>w'. step (Settle i (Rejected err)) w = Some w' \<and>
         error (ui w') = Some EXTRACT_FAILED_MSG \<and> EXTRACT_FAILED_MSG \<noteq> [] \<and>
         \<not> isLoading (ui w') \<and> extractedText (ui w') = [] \<and>
         inflight w' = [] \<and> unhandled w' = [] \<and>
         console w' = console w @ [err] \<and> calls w' = calls w \<and>
         result_view_of w' =
           \<lparr> overlay = False, error_box = Some EXTRACT_FAILED_MSG, body = None \<rparr>))"
proof (intro conjI impI)
  show "fst (resume p (Rejected err) w0) = Returned"
    by simp
next
  assume a: "run es init_world = Some w \<and> i < length (inflight w)"
  then have v: "inv w" and i: "i < length (inflight w)"
    by (auto intro: reachable_inv)
  from v have u: "unhandled w = []"
    by (simp add: inv_def)
  note s = inflight_single [OF v i]
  let ?w' = "w\<lparr>inflight := [], console := console w @ [err],
            ui := (ui w)\<lparr>error := Some EXTRACT_FAILED_MSG, isLoading := False\<rparr>\<rparr>"
  have "step (Settle i (Rejected err)) w = Some ?w'"
    using v i by (rule settle_rejected)
  moreover have "error (ui ?w') = Some EXTRACT_FAILED_MSG \<and> EXTRACT_FAILED_MSG \<noteq> [] \<and>
         \<not> isLoading (ui ?w') \<and> extractedText (ui ?w') = [] \<and>
         inflight ?w' = [] \<and> unhandled ?w' = [] \<and>
         console ?w' = console w @ [err] \<and> calls ?w' = calls w \<and>
         result_view_of ?w' =
           \<lparr> overlay = False, error_box = Some EXTRACT_FAILED_MSG, body = None \<rparr>"
    using s(4) u
    by (simp add: EXTRACT_FAILED_MSG_ne result_view_of_def ResultDisplay_def truthy_def)
  ultimately show "\<exists>w'. step (Settle i (Rejected err)) w = Some w' \<and>
         error (ui w') = Some EXTRACT_FAILED_MSG \<and> EXTRACT_FAILED_MSG \<noteq> [] \<and>
         \<not> isLoading (ui w') \<and> extractedText (ui w') = [] \<and>
         inflight w' = [] \<and> unhandled w' = [] \<and>
         console w' = console w @ [err] \<and> calls w' = calls w \<and>
         result_view_of w' =
           \<lparr> overlay = False, error_box = Some EXTRACT_FAILED_MSG, body = None \<rparr>"
    by blast
qed

theorem failure_is_caught_witness:
  "map_option (\<lambda>w. (error (ui w), isLoading (ui w), extractedText (ui w), unhandled w))
     (run [SelectImage file_A url_A, ClickExtract, Settle 0 (Rejected (Exn (js ''unreadable'')))]
        init_world) =
     Some (Some EXTRACT_FAILED_MSG, False, [], []) \<and>
   map_option (\<lambda>w. (error (ui w), isLoading (ui w), extractedText (ui w), unhandled w))
     (run [SelectImage file_A url_A, ClickExtract, Settle 0 (Fulfilled (js ''iVBO'')),
           Settle 0 (Rejected (Exn (js ''quota'')))] init_world) =
     Some (Some EXTRACT_FAILED_MSG, False, [], [])"
proof -
  let ?es1 = "[SelectImage file_A url_A, ClickExtract]"
  let ?es2 = "[SelectImage file_A url_A, ClickExtract, Settle 0 (Fulfilled (js ''iVBO''))]"
  obtain w1 where w1: "run ?es1 init_world = Some w1" and l1: "0 < length (inflight w1)"
    using run_select_click by simp
  obtain w2 where w2: "run ?es2 init_world = Some w2" and l2: "0 < length (inflight w2)"
    using run_select_click_encoded by simp
  from failure_is_caught [of _ "Exn (js ''unreadable'')" _ ?es1 w1 0] w1 l1
  obtain w1' where 1: "step (Settle 0 (Rejected (Exn (js ''unreadable'')))) w1 = Some w1'"
    "error (ui w1') = Some EXTRACT_FAILED_MSG" "\<not> isLoading (ui w1')"
    "extractedText (ui w1') = []" "unhandled w1' = []"
    by blast
  from failure_is_caught [of _ "Exn (js ''quota'')" _ ?es2 w2 0] w2 l2
  obtain w2' where 2: "step (Settle 0 (Rejected (Exn (js ''quota'')))) w2 = Some w2'"
    "error (ui w2') = Some EXTRACT_FAILED_MSG" "\<not> isLoading (ui w2')"
    "extractedText (ui w2') = []" "unhandled w2' = []"
    by blast
  have "run (?es1 @ [Settle 0 (Rejected (Exn (js ''unreadable'')))]) init_world = Some w1'"
    unfolding run_snoc w1 using 1(1) by simp
  moreover have "run (?es2 @ [Settle 0 (Rejected (Exn (js ''quota'')))]) init_world = Some w2'"
    unfolding run_snoc w2 using 2(1) by simp
  ultimately show ?thesis
    using 1 2 by simp
qed

text \<open>
  Claim C2, as stated, fails: there is no guard against a stale response. The user
  selects image A, triggers the extraction and selects image B while A's request is
  pending: the loading flag stays set (the state is not idle). When A's encoding and then
  A's extraction resolve, A's text becomes the extracted text and ResultDisplay renders
  it, although B is the selected image. When A's request fails instead, the failure
  message is set, although B is the selected image.
\<close>

theorem stale_response_is_rendered:
  "run [SelectImage file_A url_A, ClickExtract, SelectImage file_B url_B] init_world =
     Some \<lparr> ui = \<lparr> imageFile = Some file_B, imageUrl = Some url_B, extractedText = [],
                    isLoading = True, error = None \<rparr>,
            inflight = [AwaitEncode file_A], calls = [FileToBase64 file_A], console = [],
            unhandled = [] \<rparr> \<and>
   run [SelectImage file_A url_A, ClickExtract, SelectImage file_B url_B,
        Settle 0 (Fulfilled (js ''iVBO'')), Settle 0 (Fulfilled (js ''#Hi''))] init_world =
     Some \<lparr> ui = \<lparr> imageFile = Some file_B, imageUrl = Some url_B,
                    extractedText = js ''#Hi'', isLoading = False, error = None \<rparr>,
            inflight = [],
            calls = [FileToBase64 file_A, ExtractTextFromImage (js ''iVBO'') (js ''image/png'')],
            console = [], unhandled = [] \<rparr> \<and>
   body (ResultDisplay (js ''#Hi'') False None) =
     Some (Transcript [MarkedDiv 0 (js ''text-cyan-400'') (js ''#'') (js ''Hi'')]) \<and>
   run [SelectImage file_A url_A, ClickExtract, SelectImage file_B url_B,
        Settle 0 (Rejected (Exn (js ''quota'')))] init_world =
     Some \<lparr> ui = \<lparr> imageFile = Some file_B, imageUrl = Some url_B, extractedText = [],
                    isLoading = False, error = Some EXTRACT_FAILED_MSG \<rparr>,
            inflight = [], calls = [FileToBase64 file_A], console = [Exn (js ''quota'')],
            unhandled = [] \<rparr>"
  by code_simp

text \<open>
  Claim C2, amended. In every reachable state with a request in flight there is exactly
  one such request. Selecting a new image then clears the extracted text and the error
  and replaces the selected image, but the loading flag stays set and the request stays
  in flight. When the awaited promise of that request settles afterwards, the response is
  applied to the displayed state: a fulfilled encoding goes on to call
  \<open>extractTextFromImage\<close> with the old file's media type, a fulfilled extraction sets
  the extracted text to the response and clears the loading flag, a rejection sets the
  static failure message and clears the loading flag.
\<close>

theorem select_while_pending:
  "run es init_world = Some w \<and> inflight w \<noteq> [] \<longrightarrow>
     step (SelectImage f url) w = Some (handleImageSelect f url w) \<and>
     isLoading (ui (handleImageSelect f url w)) \<and>
     inflight (handleImageSelect f url w) = inflight w \<and>
     length (inflight w) = 1 \<and>
     extractedText (ui (handleImageSelect f url w)) = [] \<and>
     error (ui (handleImageSelect f url w)) = None \<and>
     imageFile (ui (handleImageSelect f url w)) = Some f \<and>
     (\<forall>g b. inflight w = [AwaitEncode g] \<longrightarrow>
        step (Settle 0 (Fulfilled b)) (handleImageSelect f url w) =
          Some ((handleImageSelect f url w)
                  \<lparr>inflight := [AwaitExtract g],
                   calls := calls w @ [ExtractTextFromImage b (file_type g)]\<rparr>)) \<and>
     (\<forall>g t. inflight w = [AwaitExtract g] \<longrightarrow>
        step (Settle 0 (Fulfilled t)) (handleImageSelect f url w) =
          Some ((handleImageSelect f url w)
                  \<lparr>inflight := [],
                   ui := (ui (handleImageSelect f url w))
                           \<lparr>extractedText := t, isLoading := False\<rparr>\<rparr>)) \<and>
     (\<forall>e. step (Settle 0 (Rejected e)) (handleImageSelect f url w) =
          Some ((handleImageSelect f url w)
                  \<lparr>inflight := [], console := console w @ [e],
                   ui := (ui (handleImageSelect f url w))
                           \<lparr>error := Some EXTRACT_FAILED_MSG, isLoading := False\<rparr>\<rparr>))"
proof
  let ?w1 = "handleImageSelect f url w"
  assume "run es init_world = Some w \<and> inflight w \<noteq> []"
  then have v: "inv w" and n: "0 < length (inflight w)"
    by (auto intro: reachable_inv)
  note s = inflight_single [OF v n]
  have v1: "inv ?w1"
    using v by (rule inv_select)
  have i1: "inflight ?w1 = inflight w" and c1: "calls ?w1 = calls w"
    and k1: "console ?w1 = console w"
    by (simp_all add: handleImageSelect_def)
  have a: "step (SelectImage f url) w = Some ?w1 \<and> isLoading (ui ?w1) \<and>
     inflight ?w1 = inflight w \<and> length (inflight w) = 1 \<and>
     extractedText (ui ?w1) = [] \<and> error (ui ?w1) = None \<and> imageFile (ui ?w1) = Some f"
    using s(2,3) by (simp add: handleImageSelect_def) (metis length_Cons list.size(3))
  have b: "step (Settle 0 (Fulfilled b)) ?w1 =
      Some (?w1\<lparr>inflight := [AwaitExtract g],
                 calls := calls w @ [ExtractTextFromImage b (file_type g)]\<rparr>)"
    if "inflight w = [AwaitEncode g]" for g b
    using settle_fulfilled_encode [OF v1, of g b] that by (simp add: i1 c1)
  have c: "step (Settle 0 (Fulfilled t)) ?w1 =
      Some (?w1\<lparr>inflight := [], ui := (ui ?w1)\<lparr>extractedText := t, isLoading := False\<rparr>\<rparr>)"
    if "inflight w = [AwaitExtract g]" for g t
    using settle_fulfilled_extract [OF v1, of g t] that by (simp add: i1)
  have d: "step (Settle 0 (Rejected e)) ?w1 =
      Some (?w1\<lparr>inflight := [], console := console w @ [e],
                 ui := (ui ?w1)\<lparr>error := Some EXTRACT_FAILED_MSG, isLoading := False\<rparr>\<rparr>)"
    for e
    using settle_rejected [OF v1, of 0 e] n by (simp add: i1 k1)
  from a b c d
  show "step (SelectImage f url) w = Some (handleImageSelect f url w) \<and>
     isLoading (ui (handleImageSelect f url w)) \<and>
     inflight (handleImageSelect f url w) = inflight w \<and>
     length (inflight w) = 1 \<and>
     extractedText (ui (handleImageSelect f url w)) = [] \<and>
     error (ui (handleImageSelect f url w)) = None \<and>
     imageFile (ui (handleImageSelect f url w)) = Some f \<and>
     (\<forall>g b. inflight w = [AwaitEncode g] \<longrightarrow>
        step (Settle 0 (Fulfilled b)) (handleImageSelect f url w) =
          Some ((handleImageSelect f url w)
                  \<lparr>inflight := [AwaitExtract g],
                   calls := calls w @ [ExtractTextFromImage b (file_type g)]\<rparr>)) \<and>
     (\<forall>g t. inflight w = [AwaitExtract g] \<longrightarrow>
        step (Settle 0 (Fulfilled t)) (handleImageSelect f url w) =
          Some ((handleImageSelect f url w)
                  \<lparr>inflight := [],
                   ui := (ui (handleImageSelect f url w))
                           \<lparr>extractedText := t, isLoading := False\<rparr>\<rparr>)) \<and>
     (\<forall>e. step (Settle 0 (Rejected e)) (handleImageSelect f url w) =
          Some ((handleImageSelect f url w)
                  \<lparr>inflight := [], console := console w @ [e],
                   ui := (ui (handleImageSelect f url w))
                           \<lparr>error := Some EXTRACT_FAILED_MSG, isLoading := False\<rparr>\<rparr>))"
    by blast
qed

theorem select_while_pending_witness:
  "step (Settle 0 (Fulfilled (js ''#Hi'')))
     (handleImageSelect file_B url_B
        \<lparr> ui = \<lparr> imageFile = Some file_A, imageUrl = Some url_A, extractedText = [],
                 isLoading = True, error = None \<rparr>,
          inflight = [AwaitExtract file_A],
          calls = [FileToBase64 file_A, ExtractTextFromImage (js ''iVBO'') (js ''image/png'')],
          console = [], unhandled = [] \<rparr>) =
   Some \<lparr> ui = \<lparr> imageFile = Some file_B, imageUrl = Some url_B, extractedText = js ''#Hi'',
                  isLoading = False, error = None \<rparr>,
          inflight = [],
          calls = [FileToBase64 file_A, ExtractTextFromImage (js ''iVBO'') (js ''image/png'')],
          console = [], unhandled = [] \<rparr>"
proof -
  let ?w = "\<lparr> ui = \<lparr> imageFile = Some file_A, imageUrl = Some url_A, extractedText = [],
                 isLoading = True, error = None \<rparr>,
          inflight = [AwaitExtract file_A],
          calls = [FileToBase64 file_A, ExtractTextFromImage (js ''iVBO'') (js ''image/png'')],
          console = [], unhandled = [] \<rparr>"
  have r: "run [SelectImage file_A url_A, ClickExtract, Settle 0 (Fulfilled (js ''iVBO''))]
      init_world = Some ?w"
    by (rule run_select_click_encoded)
  have n: "inflight ?w \<noteq> []" and i: "inflight ?w = [AwaitExtract file_A]"
    by simp_all
  from select_while_pending [of "[SelectImage file_A url_A, ClickExtract, Settle 0 (Fulfilled (js ''iVBO''))]"
      ?w file_B url_B] r n i
  have "step (Settle 0 (Fulfilled (js ''#Hi''))) (handleImageSelect file_B url_B ?w) =
      Some ((handleImageSelect file_B url_B ?w)
              \<lparr>inflight := [],
               ui := (ui (handleImageSelect file_B url_B ?w))
                       \<lparr>extractedText := js ''#Hi'', isLoading := False\<rparr>\<rparr>)"
    by blast
  then show ?thesis
    by (simp add: handleImageSelect_def)
qed

end
